theory Spec2Isabelle
  imports Main
begin

section \<open>Python strings\<close>

text \<open>
  A Python \<open>str\<close> is modelled as a \<^typ>\<open>string\<close>: a list of characters with code
  points below 256. The helpers below are the \<open>str\<close> methods the crawler and
  \<open>urllib.parse\<close> call, restricted to the arguments they are called with.
\<close>

definition startswith :: "string \<Rightarrow> string \<Rightarrow> bool" where
  "startswith s p = (take (length p) s = p)"

definition endswith :: "string \<Rightarrow> string \<Rightarrow> bool" where
  "endswith s p = (length p \<le> length s \<and> drop (length s - length p) s = p)"

definition lstrip_chars :: "(char \<Rightarrow> bool) \<Rightarrow> string \<Rightarrow> string" where
  "lstrip_chars f s = dropWhile f s"

definition rstrip_chars :: "(char \<Rightarrow> bool) \<Rightarrow> string \<Rightarrow> string" where
  "rstrip_chars f s = rev (dropWhile f (rev s))"

definition is_slash :: "char \<Rightarrow> bool" where
  "is_slash ch = (ch = CHR ''/'')"

text \<open>\<open>str.isspace\<close> on code points below 256.\<close>

definition isspace :: "char \<Rightarrow> bool" where
  "isspace ch = (ch \<in> {CHR 0x09, CHR 0x0A, CHR 0x0B, CHR 0x0C, CHR 0x0D, CHR 0x1C, CHR 0x1D,
                       CHR 0x1E, CHR 0x1F, CHR 0x20, CHR 0x85, CHR 0xA0})"

definition strip :: "string \<Rightarrow> string" where
  "strip s = rstrip_chars isspace (lstrip_chars isspace s)"

definition code_point :: "char \<Rightarrow> nat" where
  "code_point ch = of_char ch"

definition is_ascii_upper :: "char \<Rightarrow> bool" where
  "is_ascii_upper ch = (65 \<le> code_point ch \<and> code_point ch \<le> 90)"

definition is_ascii_lower :: "char \<Rightarrow> bool" where
  "is_ascii_lower ch = (97 \<le> code_point ch \<and> code_point ch \<le> 122)"

definition is_ascii_digit :: "char \<Rightarrow> bool" where
  "is_ascii_digit ch = (48 \<le> code_point ch \<and> code_point ch \<le> 57)"

definition lower_char :: "char \<Rightarrow> char" where
  "lower_char ch =
     (if is_ascii_upper ch then char_of (of_char ch + (32::nat)) else ch)"

definition lower :: "string \<Rightarrow> string" where
  "lower s = map lower_char s"

text \<open>\<open>s.split(ch, 1)\<close> when \<open>ch\<close> occurs in \<open>s\<close>; \<open>before ch s\<close> alone is
  \<open>s.split(ch)[0]\<close> and \<open>s[:s.find(ch)]\<close>.\<close>

definition before :: "char \<Rightarrow> string \<Rightarrow> string" where
  "before ch s = takeWhile (\<lambda>x. x \<noteq> ch) s"

definition after :: "char \<Rightarrow> string \<Rightarrow> string" where
  "after ch s = tl (dropWhile (\<lambda>x. x \<noteq> ch) s)"

text \<open>\<open>s.split(ch)\<close>: every piece between occurrences of \<open>ch\<close>, never an empty list.\<close>

fun split_on :: "char \<Rightarrow> string \<Rightarrow> string list" where
  "split_on ch [] = [[]]"
| "split_on ch (x # xs) =
     (if x = ch then [] # split_on ch xs
      else (case split_on ch xs of
              [] \<Rightarrow> [[x]]
            | p # ps \<Rightarrow> (x # p) # ps))"

text \<open>\<open>sep.join(parts)\<close> for a one-character separator.\<close>

fun join :: "char \<Rightarrow> string list \<Rightarrow> string" where
  "join ch [] = []"
| "join ch [p] = p"
| "join ch (p # q # ps) = p @ ch # join ch (q # ps)"

section \<open>The outside world\<close>

text \<open>
  The crawler calls three libraries whose code is not part of the repository: the
  regular-expression engine (\<open>re.findall\<close> on twelve fixed patterns), the HTTP client
  (\<open>requests.get\<close>) and, inside \<open>urllib.parse\<close>, the \<open>ipaddress\<close> check of a
  bracketed host. They are parameters of the model.
\<close>

datatype pattern =
    P_href         \<comment> \<open>\<^verbatim>\<open>href=["\'](.*?)["\']\<close>\<close>
  | P_src          \<comment> \<open>\<^verbatim>\<open>src=["\'](.*?)["\']\<close>\<close>
  | P_action       \<comment> \<open>\<^verbatim>\<open>action=["\'](.*?)["\']\<close>\<close>
  | P_css_url      \<comment> \<open>\<^verbatim>\<open>url\(["\']?(.*?)["\']?\)\<close>\<close>
  | P_anchor       \<comment> \<open>\<^verbatim>\<open><a[^>]*?href=["\'](.*?)["\'][^>]*?>\<close>\<close>
  | P_js_abs       \<comment> \<open>\<^verbatim>\<open>["\'](/[^"\']+?)["\']\<close>\<close>
  | P_js_rel       \<comment> \<open>\<^verbatim>\<open>["\'](\.\.?/[^"\']+?)["\']\<close>\<close>
  | P_js_api       \<comment> \<open>\<^verbatim>\<open>api["\']?\s*:\s*["\']([^"\']+?)["\']\<close>\<close>
  | P_js_endpoint  \<comment> \<open>\<^verbatim>\<open>endpoint["\']?\s*:\s*["\']([^"\']+?)["\']\<close>\<close>
  | P_js_keyword   \<comment> \<open>\<^verbatim>\<open>["\'](/(?:api|admin|dashboard|login|register|panel)[^"\']*?)["\']\<close>\<close>
  | P_comment      \<comment> \<open>\<^verbatim>\<open><!--.*?-->\<close> with \<open>re.DOTALL\<close>\<close>
  | P_comment_path \<comment> \<open>\<^verbatim>\<open>(/[a-zA-Z0-9_\-\./]+)\<close>\<close>

text \<open>What \<open>requests.get\<close> does: a response, or one of the exceptions the crawler
  tells apart.\<close>

datatype response =
    Response int string string   \<comment> \<open>status code, Content-Type header, body text\<close>
  | ConnectionError
  | Timeout
  | OtherError string

record platform =
  findall :: "pattern \<Rightarrow> string \<Rightarrow> string list"
  http_get :: "string \<Rightarrow> response"
  check_bracketed_host :: "string \<Rightarrow> bool"

section \<open>urllib.parse (CPython 3.11)\<close>

datatype error = ValueError

record parse_result =
  scheme :: string
  netloc :: string
  path :: string
  params :: string
  query :: string
  fragment :: string

definition uses_relative :: "string list" where
  "uses_relative = ['''', ''ftp'', ''http'', ''gopher'', ''nntp'', ''imap'', ''wais'', ''file'',
     ''https'', ''shttp'', ''mms'', ''prospero'', ''rtsp'', ''rtsps'', ''rtspu'', ''sftp'',
     ''svn'', ''svn+ssh'', ''ws'', ''wss'']"

definition uses_netloc :: "string list" where
  "uses_netloc = ['''', ''ftp'', ''http'', ''gopher'', ''nntp'', ''telnet'', ''imap'', ''wais'',
     ''file'', ''mms'', ''https'', ''shttp'', ''snews'', ''prospero'', ''rtsp'', ''rtsps'',
     ''rtspu'', ''rsync'', ''svn'', ''svn+ssh'', ''sftp'', ''nfs'', ''git'', ''git+ssh'',
     ''ws'', ''wss'']"

definition uses_params :: "string list" where
  "uses_params = ['''', ''ftp'', ''hdl'', ''prospero'', ''http'', ''imap'', ''https'', ''shttp'',
     ''rtsp'', ''rtsps'', ''rtspu'', ''sip'', ''sips'', ''mms'', ''sftp'', ''tel'']"

definition is_ascii_alpha :: "char \<Rightarrow> bool" where
  "is_ascii_alpha ch = (is_ascii_lower ch \<or> is_ascii_upper ch)"

definition scheme_char :: "char \<Rightarrow> bool" where
  "scheme_char ch =
     (is_ascii_alpha ch \<or> is_ascii_digit ch
      \<or> ch = CHR ''+'' \<or> ch = CHR ''-'' \<or> ch = CHR ''.'')"

text \<open>\<open>_WHATWG_C0_CONTROL_OR_SPACE\<close>: the code points 0 to 0x20.\<close>

definition c0_or_space :: "char \<Rightarrow> bool" where
  "c0_or_space ch = (code_point ch \<le> 32)"

text \<open>\<open>_UNSAFE_URL_BYTES_TO_REMOVE\<close>: tab, carriage return and newline are deleted
  wherever they stand.\<close>

definition remove_unsafe :: "string \<Rightarrow> string" where
  "remove_unsafe s = filter (\<lambda>ch. ch \<noteq> CHR 0x09 \<and> ch \<noteq> CHR 0x0D \<and> ch \<noteq> CHR 0x0A) s"

definition netloc_delim :: "char \<Rightarrow> bool" where
  "netloc_delim ch = (ch = CHR ''/'' \<or> ch = CHR ''?'' \<or> ch = CHR ''#'')"

text \<open>\<open>_splitnetloc(url, 2)\<close>: the text after the leading \<open>//\<close> up to the first of
  \<open>/\<close>, \<open>?\<close>, \<open>#\<close>, and the rest.\<close>

definition splitnetloc :: "string \<Rightarrow> string \<times> string" where
  "splitnetloc url =
     (takeWhile (\<lambda>ch. \<not> netloc_delim ch) (drop 2 url),
      dropWhile (\<lambda>ch. \<not> netloc_delim ch) (drop 2 url))"

text \<open>The first step of \<open>urlsplit\<close>: a leading run of scheme characters that starts
  with an ASCII letter and ends at the first colon is the scheme, lower-cased.\<close>

definition split_scheme :: "string \<Rightarrow> string \<Rightarrow> string \<times> string" where
  "split_scheme dflt url =
     (if CHR '':'' \<in> set url \<and> before CHR '':'' url \<noteq> [] \<and> is_ascii_alpha (hd url)
         \<and> list_all scheme_char (before CHR '':'' url)
      then (lower (before CHR '':'' url), after CHR '':'' url)
      else (dflt, url))"

text \<open>
  \<open>urlsplit(url, scheme)\<close>. The result carries no \<open>params\<close> yet (\<open>urlparse\<close> fills
  them in). \<open>_checknetloc\<close> returns at once on an ASCII netloc and raises only when
  NFKC normalisation produces one of \<open>/?#@:\<close>, which no code point below 256 does, so
  it has no branch here.
\<close>

definition urlsplit :: "platform \<Rightarrow> string \<Rightarrow> string \<Rightarrow> error + parse_result" where
  "urlsplit P url0 scheme0 =
     (let url1 = remove_unsafe (lstrip_chars c0_or_space url0);
          scheme1 = remove_unsafe (rstrip_chars c0_or_space (lstrip_chars c0_or_space scheme0));
          (sch, url2) = split_scheme scheme1 url1;
          (nl, url3) = (if take 2 url2 = ''//'' then splitnetloc url2 else ([], url2))
      in if take 2 url2 = ''//''
            \<and> ((CHR ''['' \<in> set nl \<and> CHR '']'' \<notin> set nl) \<or> (CHR '']'' \<in> set nl \<and> CHR ''['' \<notin> set nl))
         then Inl ValueError
         else if take 2 url2 = ''//'' \<and> CHR ''['' \<in> set nl \<and> CHR '']'' \<in> set nl
                 \<and> \<not> check_bracketed_host P (before CHR '']'' (after CHR ''['' nl))
         then Inl ValueError
         else
           (let (url4, frag) = (if CHR ''#'' \<in> set url3
                                then (before CHR ''#'' url3, after CHR ''#'' url3)
                                else (url3, []));
                (url5, qry) = (if CHR ''?'' \<in> set url4
                               then (before CHR ''?'' url4, after CHR ''?'' url4)
                               else (url4, []))
            in Inr \<lparr>scheme = sch, netloc = nl, path = url5, params = [],
                     query = qry, fragment = frag\<rparr>))"

text \<open>\<open>_splitparams\<close>: the parameters are what follows the first \<open>;\<close> of the last
  path segment.\<close>

definition splitparams :: "string \<Rightarrow> string \<times> string" where
  "splitparams url =
     (if CHR ''/'' \<in> set url
      then (let seg = rev (takeWhile (\<lambda>ch. ch \<noteq> CHR ''/'') (rev url));
                dir = rev (dropWhile (\<lambda>ch. ch \<noteq> CHR ''/'') (rev url))
            in if CHR '';'' \<notin> set seg then (url, [])
               else (dir @ before CHR '';'' seg, after CHR '';'' seg))
      else if CHR '';'' \<in> set url then (before CHR '';'' url, after CHR '';'' url)
      else (butlast url, url))"

definition urlparse_scheme :: "platform \<Rightarrow> string \<Rightarrow> string \<Rightarrow> error + parse_result" where
  "urlparse_scheme P url dflt =
     (case urlsplit P url dflt of
        Inl e \<Rightarrow> Inl e
      | Inr r \<Rightarrow>
          (if scheme r \<in> set uses_params \<and> CHR '';'' \<in> set (path r)
           then Inr (r\<lparr>path := fst (splitparams (path r)), params := snd (splitparams (path r))\<rparr>)
           else Inr r))"

definition urlparse :: "platform \<Rightarrow> string \<Rightarrow> error + parse_result" where
  "urlparse P url = urlparse_scheme P url []"

definition urlunsplit :: "string \<Rightarrow> string \<Rightarrow> string \<Rightarrow> string \<Rightarrow> string \<Rightarrow> string" where
  "urlunsplit sch nl url qry frag =
     (let url1 = (if nl \<noteq> [] \<or> (sch \<noteq> [] \<and> sch \<in> set uses_netloc) \<or> take 2 url = ''//''
                  then ''//'' @ nl @ (if url \<noteq> [] \<and> take 1 url \<noteq> ''/'' then CHR ''/'' # url else url)
                  else url);
          url2 = (if sch \<noteq> [] then sch @ '':'' @ url1 else url1);
          url3 = (if qry \<noteq> [] then url2 @ ''?'' @ qry else url2)
      in if frag \<noteq> [] then url3 @ ''#'' @ frag else url3)"

definition urlunparse :: "parse_result \<Rightarrow> string" where
  "urlunparse r =
     urlunsplit (scheme r) (netloc r)
       (if params r \<noteq> [] then path r @ '';'' @ params r else path r)
       (query r) (fragment r)"

text \<open>The dot-segment loop of \<open>urljoin\<close>: \<open>..\<close> pops the last resolved segment (and
  is ignored when there is none), \<open>.\<close> is dropped.\<close>

fun resolve_segments :: "string list \<Rightarrow> string list \<Rightarrow> string list" where
  "resolve_segments acc [] = acc"
| "resolve_segments acc (seg # segs) =
     (if seg = ''..'' then resolve_segments (butlast acc) segs
      else if seg = ''.'' then resolve_segments acc segs
      else resolve_segments (acc @ [seg]) segs)"

text \<open>\<open>segments[1:-1] = filter(None, segments[1:-1])\<close>.\<close>

definition filter_middle :: "string list \<Rightarrow> string list" where
  "filter_middle segs =
     (if length segs < 2 then segs
      else hd segs # filter (\<lambda>s. s \<noteq> []) (butlast (tl segs)) @ [last segs])"

text \<open>The path resolution at the end of \<open>urljoin\<close>, from the base path and the
  (non-empty) relative path.\<close>

definition resolve_path :: "string \<Rightarrow> string \<Rightarrow> string" where
  "resolve_path bpath rpath =
     (let base_parts0 = split_on CHR ''/'' bpath;
          base_parts = (if last base_parts0 \<noteq> [] then butlast base_parts0 else base_parts0);
          segments = (if take 1 rpath = ''/'' then split_on CHR ''/'' rpath
                      else filter_middle (base_parts @ split_on CHR ''/'' rpath));
          resolved0 = resolve_segments [] segments;
          resolved = (if last segments = ''.'' \<or> last segments = ''..''
                      then resolved0 @ [[]] else resolved0);
          joined = join CHR ''/'' resolved
      in if joined = [] then ''/'' else joined)"

definition join_parsed :: "string \<Rightarrow> parse_result \<Rightarrow> parse_result \<Rightarrow> string" where
  "join_parsed url b r =
     (if scheme r \<noteq> scheme b \<or> scheme r \<notin> set uses_relative then url
      else if scheme r \<in> set uses_netloc \<and> netloc r \<noteq> [] then urlunparse r
      else
        (let nl = (if scheme r \<in> set uses_netloc then netloc b else netloc r)
         in if path r = [] \<and> params r = []
            then urlunparse (r\<lparr>netloc := nl, path := path b, params := params b,
                               query := (if query r = [] then query b else query r)\<rparr>)
            else urlunparse (r\<lparr>netloc := nl, path := resolve_path (path b) (path r)\<rparr>)))"

definition urljoin :: "platform \<Rightarrow> string \<Rightarrow> string \<Rightarrow> error + string" where
  "urljoin P base url =
     (if base = [] then Inr url
      else if url = [] then Inr base
      else (case urlparse_scheme P base [] of
              Inl e \<Rightarrow> Inl e
            | Inr b \<Rightarrow>
                (case urlparse_scheme P url (scheme b) of
                   Inl e \<Rightarrow> Inl e
                 | Inr r \<Rightarrow> Inr (join_parsed url b r))))"

section \<open>The crawler: configuration, normalisation, filtering\<close>

text \<open>
  The fields of \<open>AdvancedWebCrawler\<close> that \<open>__init__\<close> sets once and nothing changes
  afterwards. \<open>self.scheme\<close> is the field \<open>self_scheme\<close>; the request delay and the
  headers do not reach any result and are left out.
\<close>

record crawler =
  base_url :: string
  max_depth :: int
  max_workers :: int
  base_domain :: string
  self_scheme :: string

text \<open>\<open>__init__\<close>: the stored base URL loses its trailing slashes, while domain and
  scheme come from parsing the URL as given. \<open>urlparse\<close> may raise.\<close>

definition init :: "platform \<Rightarrow> string \<Rightarrow> int \<Rightarrow> int \<Rightarrow> error + crawler" where
  "init P url depth workers =
     (case urlparse P url of
        Inl e \<Rightarrow> Inl e
      | Inr r \<Rightarrow> Inr \<lparr>base_url = rstrip_chars is_slash url, max_depth = depth,
                       max_workers = workers, base_domain = netloc r,
                       self_scheme = (if scheme r = [] then ''http'' else scheme r)\<rparr>)"

definition normalize_path :: "string \<Rightarrow> string" where
  "normalize_path p =
     (let p1 = (if p = [] then ''/'' else p)
      in if p1 \<noteq> ''/'' \<and> endswith p1 ''/'' then rstrip_chars is_slash p1 else p1)"

definition normalize_url :: "platform \<Rightarrow> crawler \<Rightarrow> string \<Rightarrow> error + string" where
  "normalize_url P c url =
     (case urlparse P url of
        Inl e \<Rightarrow> Inl e
      | Inr r \<Rightarrow>
          Inr (urlunparse
                 (r\<lparr>scheme := (if scheme r = [] then self_scheme c else scheme r),
                    netloc := (if netloc r = [] then base_domain c else netloc r),
                    path := normalize_path (path r)\<rparr>)))"

definition invalid_extensions :: "string list" where
  "invalid_extensions =
     [''.jpg'', ''.jpeg'', ''.png'', ''.gif'', ''.bmp'', ''.ico'', ''.svg'',
      ''.pdf'', ''.doc'', ''.docx'', ''.xls'', ''.xlsx'', ''.ppt'', ''.pptx'',
      ''.mp4'', ''.mp3'', ''.avi'', ''.mov'', ''.wmv'', ''.flv'',
      ''.woff'', ''.woff2'', ''.ttf'', ''.eot'',
      ''.zip'', ''.rar'', ''.tar'', ''.gz'', ''.7z'']"

text \<open>\<open>is_valid_link\<close>: the bare \<open>except\<close> turns a parse error into \<open>False\<close>.\<close>

definition is_valid_link :: "platform \<Rightarrow> crawler \<Rightarrow> string \<Rightarrow> bool" where
  "is_valid_link P c url =
     (case urlparse P url of
        Inl e \<Rightarrow> False
      | Inr r \<Rightarrow>
          if netloc r \<noteq> [] \<and> netloc r \<noteq> base_domain c then False
          else \<not> list_ex (endswith (lower (path r))) invalid_extensions)"

section \<open>Link extraction\<close>

definition href_patterns :: "pattern list" where
  "href_patterns = [P_href, P_src, P_action, P_css_url, P_anchor]"

definition js_patterns :: "pattern list" where
  "js_patterns = [P_js_abs, P_js_rel, P_js_api, P_js_endpoint, P_js_keyword]"

text \<open>\<open>link.split('#')[0].split('?')[0]\<close>.\<close>

definition strip_fragment_query :: "string \<Rightarrow> string" where
  "strip_fragment_query link = before CHR ''?'' (before CHR ''#'' link)"

definition special_protocol :: "string \<Rightarrow> bool" where
  "special_protocol link =
     (startswith (lower link) ''javascript:'' \<or> startswith (lower link) ''mailto:''
      \<or> startswith (lower link) ''tel:'')"

text \<open>Absolute links are taken as they are, the others are joined to the page's URL.\<close>

definition absolute_link :: "platform \<Rightarrow> string \<Rightarrow> string \<Rightarrow> error + string" where
  "absolute_link P page link =
     (if startswith link ''http://'' \<or> startswith link ''https://'' then Inr link
      else urljoin P page link)"

text \<open>
  The inner loop of \<open>extract_links\<close> over the matches of one pattern. The \<open>try\<close>
  encloses this loop: an exception of \<open>urljoin\<close> or \<open>normalize_url\<close> leaves the loop
  with the links added so far, and the \<open>except\<close> clause goes on to the next pattern.
\<close>

fun extract_found :: "platform \<Rightarrow> crawler \<Rightarrow> string \<Rightarrow> string list \<Rightarrow> string set \<Rightarrow> string set" where
  "extract_found P c page [] links = links"
| "extract_found P c page (m # ms) links =
     (let link = strip m
      in if link = [] then extract_found P c page ms links
         else if special_protocol (strip_fragment_query link) then extract_found P c page ms links
         else (case absolute_link P page (strip_fragment_query link) of
                 Inl e \<Rightarrow> links
               | Inr a \<Rightarrow>
                   (case normalize_url P c a of
                      Inl e \<Rightarrow> links
                    | Inr n \<Rightarrow>
                        extract_found P c page ms
                          (if is_valid_link P c n then insert n links else links))))"

definition extract_links :: "platform \<Rightarrow> crawler \<Rightarrow> string \<Rightarrow> string \<Rightarrow> string set" where
  "extract_links P c page html =
     foldl (\<lambda>links pat. extract_found P c page (findall P pat html) links) {} href_patterns"

text \<open>
  \<open>find_potential_paths\<close> has one \<open>try\<close> around both of its loops. The three
  functions below return \<open>Inr\<close> of the set when their loop ran to its end and
  \<open>Inl\<close> of the set collected so far when \<open>normalize_url\<close> raised.
\<close>

fun mine_found :: "platform \<Rightarrow> crawler \<Rightarrow> string list \<Rightarrow> string set \<Rightarrow> string set + string set" where
  "mine_found P c [] paths = Inr paths"
| "mine_found P c (m # ms) paths =
     (case normalize_url P c (base_url c @ m) of
        Inl e \<Rightarrow> Inl paths
      | Inr full \<Rightarrow>
          mine_found P c ms (if is_valid_link P c full then insert full paths else paths))"

fun mine_patterns ::
  "platform \<Rightarrow> crawler \<Rightarrow> string \<Rightarrow> pattern list \<Rightarrow> string set \<Rightarrow> string set + string set" where
  "mine_patterns P c html [] paths = Inr paths"
| "mine_patterns P c html (pat # pats) paths =
     (case mine_found P c (findall P pat html) paths of
        Inl ps \<Rightarrow> Inl ps
      | Inr ps \<Rightarrow> mine_patterns P c html pats ps)"

fun mine_comments :: "platform \<Rightarrow> crawler \<Rightarrow> string list \<Rightarrow> string set \<Rightarrow> string set + string set" where
  "mine_comments P c [] paths = Inr paths"
| "mine_comments P c (cm # cms) paths =
     (case mine_found P c (findall P P_comment_path cm) paths of
        Inl ps \<Rightarrow> Inl ps
      | Inr ps \<Rightarrow> mine_comments P c cms ps)"

definition find_potential_paths :: "platform \<Rightarrow> crawler \<Rightarrow> string \<Rightarrow> string set" where
  "find_potential_paths P c html =
     (case mine_patterns P c html js_patterns {} of
        Inl ps \<Rightarrow> ps
      | Inr ps \<Rightarrow>
          (case mine_comments P c (findall P P_comment html) ps of
             Inl ps' \<Rightarrow> ps'
           | Inr ps' \<Rightarrow> ps'))"

section \<open>Run state and fetching\<close>

text \<open>An entry of \<open>url_data\<close>: the dictionary stored for a response (status code,
  content type, content length, depth) or for an exception (error text, depth). The
  timestamps are left out.\<close>

datatype visit_record =
    Status_record int string nat int
  | Error_record string int

text \<open>What \<open>fetch_url\<close> returns: the URL, the links found and the status code.\<close>

type_synonym fetch_result = "string \<times> string set \<times> int"

text \<open>A submitted task: its arguments and, once the worker has run it, its result.\<close>

datatype future = Future string int "fetch_result option"

text \<open>Where the thread that runs \<open>crawl\<close> stands: at the submission loop of
  \<open>_threaded_crawl\<close>, inside the pass over the snapshot \<open>done_futures\<close> (the keys
  still to be looked at), or after \<open>crawl\<close> has returned.\<close>

datatype pc = Submitting | Scanning "nat list" | Returned

text \<open>
  The mutable part of the crawler and of \<open>_threaded_crawl\<close>. The dictionary
  \<open>futures\<close> is keyed by the identity of the future object, here a number drawn
  from \<open>next_id\<close>. Two fields record effects on the outside: \<open>requests_sent\<close> lists
  the URLs passed to \<open>requests.get\<close>, in order, and \<open>displayed\<close> tells whether
  \<open>display_results\<close> was called.
\<close>

record state =
  visited :: "string set"
  discovered_urls :: "string set"
  url_data :: "string \<rightharpoonup> visit_record"
  total_requests :: nat
  successful_requests :: nat
  failed_requests :: nat
  queue :: "(string \<times> int) list"
  futures :: "(nat \<times> future) list"
  next_id :: nat
  pc :: pc
  requests_sent :: "string list"
  displayed :: bool

definition initial_state :: state where
  "initial_state =
     \<lparr>visited = {}, discovered_urls = {}, url_data = Map.empty, total_requests = 0,
      successful_requests = 0, failed_requests = 0, queue = [], futures = [], next_id = 0,
      pc = Submitting, requests_sent = [], displayed = False\<rparr>"

text \<open>The links of a fetched page: both heuristics, united.\<close>

definition page_links :: "platform \<Rightarrow> crawler \<Rightarrow> string \<Rightarrow> string \<Rightarrow> string set" where
  "page_links P c url html = extract_links P c url html \<union> find_potential_paths P c html"

text \<open>\<open>fetch_url(url, depth)\<close>, run by a worker. Every exception of the request ends
  in one of the three handlers; extraction raises nothing.\<close>

definition fetch_error :: "state \<Rightarrow> string \<Rightarrow> int \<Rightarrow> string \<Rightarrow> state \<times> fetch_result" where
  "fetch_error s url depth msg =
     (s\<lparr>failed_requests := failed_requests s + 1,
        url_data := (url_data s)(url \<mapsto> Error_record msg depth)\<rparr>,
      (url, {}, 0))"

definition fetch_url :: "platform \<Rightarrow> crawler \<Rightarrow> state \<Rightarrow> string \<Rightarrow> int \<Rightarrow> state \<times> fetch_result" where
  "fetch_url P c s url depth =
     (let s1 = s\<lparr>total_requests := total_requests s + 1,
                 requests_sent := requests_sent s @ [url]\<rparr>
      in case http_get P url of
           Response code ctype body \<Rightarrow>
             (s1\<lparr>successful_requests := successful_requests s1 + 1,
                 url_data := (url_data s1)(url \<mapsto> Status_record code ctype (length body) depth)\<rparr>,
              (url, page_links P c url body, code))
         | ConnectionError \<Rightarrow> fetch_error s1 url depth ''Connection refused''
         | Timeout \<Rightarrow> fetch_error s1 url depth ''Request timeout''
         | OtherError msg \<Rightarrow> fetch_error s1 url depth msg)"

section \<open>The crawl\<close>

text \<open>The entries appended for a list of links: those not yet visited, each with the
  given depth.\<close>

definition enqueue_links :: "state \<Rightarrow> string list \<Rightarrow> int \<Rightarrow> (string \<times> int) list" where
  "enqueue_links s ls depth = map (\<lambda>l. (l, depth)) (filter (\<lambda>l. l \<notin> visited s) ls)"

text \<open>
  \<open>crawl\<close> up to the call of \<open>_threaded_crawl\<close>. The seed is requested directly,
  not through \<open>fetch_url\<close>. \<open>ls\<close> is the order in which the loop over the set
  \<open>initial_links\<close> meets its elements. A connection error and any other exception
  return at once; a status other than 200 is recorded and reported; status 200 fills
  the queue at depth 1 and enters the thread pool, whose constructor raises (and
  \<open>crawl\<close> returns from its handler) when \<open>max_workers\<close> is not positive.
\<close>

definition display_results :: "state \<Rightarrow> state" where
  "display_results s = s\<lparr>displayed := True\<rparr>"

definition record_seed :: "crawler \<Rightarrow> state \<Rightarrow> int \<Rightarrow> string \<Rightarrow> string \<Rightarrow> state" where
  "record_seed c s code ctype body =
     s\<lparr>url_data := (url_data s)(base_url c \<mapsto> Status_record code ctype (length body) 0),
       discovered_urls := insert (base_url c) (discovered_urls s),
       successful_requests := successful_requests s + 1\<rparr>"

definition crawl_seed :: "platform \<Rightarrow> crawler \<Rightarrow> string list \<Rightarrow> state" where
  "crawl_seed P c ls =
     (let s1 = initial_state\<lparr>visited := {base_url c}, requests_sent := [base_url c]\<rparr>
      in case http_get P (base_url c) of
           Response code ctype body \<Rightarrow>
             if code = 200
             then (let s2 = record_seed c s1 code ctype body;
                       s3 = s2\<lparr>queue := enqueue_links s2 ls 1\<rparr>
                   in if max_workers c \<le> 0 then s3\<lparr>pc := Returned\<rparr> else s3)
             else display_results ((record_seed c s1 code ctype body)\<lparr>pc := Returned\<rparr>)
         | ConnectionError \<Rightarrow> s1\<lparr>pc := Returned\<rparr>
         | Timeout \<Rightarrow> s1\<lparr>pc := Returned\<rparr>
         | OtherError msg \<Rightarrow> s1\<lparr>pc := Returned\<rparr>)"

text \<open>The set \<open>initial_links\<close> that \<open>crawl\<close> builds from the seed's page.\<close>

definition initial_links :: "platform \<Rightarrow> crawler \<Rightarrow> string set" where
  "initial_links P c =
     (case http_get P (base_url c) of
        Response code ctype body \<Rightarrow>
          if code = 200 then page_links P c (base_url c) body else {}
      | _ \<Rightarrow> {})"

text \<open>The body of \<open>if future.done()\<close> after the future has been taken out of the
  dictionary: \<open>ls\<close> is the order in which the loop meets the links.\<close>

definition handle_result :: "crawler \<Rightarrow> state \<Rightarrow> int \<Rightarrow> fetch_result \<Rightarrow> string list \<Rightarrow> state" where
  "handle_result c s depth res ls =
     (case res of (source_url, links, code) \<Rightarrow>
        s\<lparr>discovered_urls := insert source_url (discovered_urls s),
          total_requests := total_requests s + 1,
          queue := queue s @ (if code = 200 \<and> depth < max_depth c
                              then enqueue_links s ls (depth + 1) else [])\<rparr>)"

definition remove_future :: "nat \<Rightarrow> (nat \<times> future) list \<Rightarrow> (nat \<times> future) list" where
  "remove_future i fs = filter (\<lambda>(j, f). j \<noteq> i) fs"

definition set_result :: "nat \<Rightarrow> fetch_result \<Rightarrow> (nat \<times> future) list \<Rightarrow> (nat \<times> future) list" where
  "set_result i res fs =
     map (\<lambda>(j, f). if j = i then (case f of Future u d r \<Rightarrow> (j, Future u d (Some res))) else (j, f)) fs"

text \<open>
  One step of the concurrent phase. The first six rules are the thread running
  \<open>_threaded_crawl\<close>; \<open>worker\<close> is a pool thread running a submitted \<open>fetch_url\<close>
  to its end, at any moment. Each call of \<open>fetch_url\<close> is one step: its updates of
  the counters and of \<open>url_data\<close> commute with everything the control loop does.
\<close>

inductive step :: "platform \<Rightarrow> crawler \<Rightarrow> state \<Rightarrow> state \<Rightarrow> bool" for P c where
  submit_skip:
    "pc s = Submitting \<Longrightarrow> queue s = (url, depth) # q
     \<Longrightarrow> int (length (futures s)) < max_workers c * 2
     \<Longrightarrow> \<not> (url \<notin> visited s \<and> depth \<le> max_depth c)
     \<Longrightarrow> step P c s (s\<lparr>queue := q\<rparr>)"
| submit_claim:
    "pc s = Submitting \<Longrightarrow> queue s = (url, depth) # q
     \<Longrightarrow> int (length (futures s)) < max_workers c * 2
     \<Longrightarrow> url \<notin> visited s \<Longrightarrow> depth \<le> max_depth c
     \<Longrightarrow> step P c s (s\<lparr>queue := q, visited := insert url (visited s),
                          futures := futures s @ [(next_id s, Future url depth None)],
                          next_id := Suc (next_id s)\<rparr>)"
| begin_scan:
    "pc s = Submitting \<Longrightarrow> \<not> (queue s \<noteq> [] \<and> int (length (futures s)) < max_workers c * 2)
     \<Longrightarrow> futures s \<noteq> []
     \<Longrightarrow> step P c s (s\<lparr>pc := Scanning (map fst (futures s))\<rparr>)"
| scan_pending:
    "pc s = Scanning (i # ids) \<Longrightarrow> map_of (futures s) i = Some (Future url depth None)
     \<Longrightarrow> step P c s (s\<lparr>pc := Scanning ids\<rparr>)"
| scan_done:
    "pc s = Scanning (i # ids) \<Longrightarrow> map_of (futures s) i = Some (Future url depth (Some res))
     \<Longrightarrow> distinct ls \<Longrightarrow> set ls = fst (snd res)
     \<Longrightarrow> step P c s
           (handle_result c (s\<lparr>futures := remove_future i (futures s), pc := Scanning ids\<rparr>)
              depth res ls)"
| scan_end:
    "pc s = Scanning [] \<Longrightarrow> step P c s (s\<lparr>pc := Submitting\<rparr>)"
| finish:
    "pc s = Submitting \<Longrightarrow> queue s = [] \<Longrightarrow> futures s = []
     \<Longrightarrow> step P c s (display_results (s\<lparr>pc := Returned\<rparr>))"
| worker:
    "(i, Future url depth None) \<in> set (futures s)
     \<Longrightarrow> fetch_url P c s url depth = (s', res)
     \<Longrightarrow> step P c s (s'\<lparr>futures := set_result i res (futures s')\<rparr>)"

text \<open>The states a run of \<open>crawl\<close> passes through, and the runs that have returned.\<close>

inductive reachable :: "platform \<Rightarrow> crawler \<Rightarrow> state \<Rightarrow> bool" for P c where
  seeded: "distinct ls \<Longrightarrow> set ls = initial_links P c \<Longrightarrow> reachable P c (crawl_seed P c ls)"
| stepped: "reachable P c s \<Longrightarrow> step P c s s' \<Longrightarrow> reachable P c s'"

definition completed :: "platform \<Rightarrow> crawler \<Rightarrow> state \<Rightarrow> bool" where
  "completed P c s = (reachable P c s \<and> pc s = Returned)"

section \<open>Schedules\<close>

text \<open>
  The step relation leaves open which thread moves next and in which order a set of
  links is walked. A schedule fixes these choices, one action per step, so that a run
  can be computed: \<open>Submit\<close> takes the next queue entry, \<open>Look ls\<close> looks at the
  next future of the snapshot (walking its links in the order \<open>ls\<close> when it is
  done), \<open>Work i\<close> lets a worker run future \<open>i\<close>. An action that the state does
  not allow gives \<open>None\<close>.
\<close>

datatype action = Submit | Begin_scan | Look "string list" | End_scan | Finish | Work nat

fun exec :: "platform \<Rightarrow> crawler \<Rightarrow> action \<Rightarrow> state \<Rightarrow> state option" where
  "exec P c Submit s =
     (case queue s of
        [] \<Rightarrow> None
      | (url, depth) # q \<Rightarrow>
          if pc s = Submitting \<and> int (length (futures s)) < max_workers c * 2
          then (if url \<notin> visited s \<and> depth \<le> max_depth c
                then Some (s\<lparr>queue := q, visited := insert url (visited s),
                              futures := futures s @ [(next_id s, Future url depth None)],
                              next_id := Suc (next_id s)\<rparr>)
                else Some (s\<lparr>queue := q\<rparr>))
          else None)"
| "exec P c Begin_scan s =
     (if pc s = Submitting
         \<and> \<not> (queue s \<noteq> [] \<and> int (length (futures s)) < max_workers c * 2)
         \<and> futures s \<noteq> []
      then Some (s\<lparr>pc := Scanning (map fst (futures s))\<rparr>) else None)"
| "exec P c (Look ls) s =
     (case pc s of
        Scanning (i # ids) \<Rightarrow>
          (case map_of (futures s) i of
             Some (Future url depth None) \<Rightarrow> Some (s\<lparr>pc := Scanning ids\<rparr>)
           | Some (Future url depth (Some res)) \<Rightarrow>
               if distinct ls \<and> set ls = fst (snd res)
               then Some (handle_result c
                            (s\<lparr>futures := remove_future i (futures s), pc := Scanning ids\<rparr>)
                            depth res ls)
               else None
           | None \<Rightarrow> None)
      | _ \<Rightarrow> None)"
| "exec P c End_scan s =
     (if pc s = Scanning [] then Some (s\<lparr>pc := Submitting\<rparr>) else None)"
| "exec P c Finish s =
     (if pc s = Submitting \<and> queue s = [] \<and> futures s = []
      then Some (display_results (s\<lparr>pc := Returned\<rparr>)) else None)"
| "exec P c (Work i) s =
     (case map_of (futures s) i of
        Some (Future url depth None) \<Rightarrow>
          (case fetch_url P c s url depth of
             (s', res) \<Rightarrow> Some (s'\<lparr>futures := set_result i res (futures s')\<rparr>))
      | _ \<Rightarrow> None)"

fun run :: "platform \<Rightarrow> crawler \<Rightarrow> action list \<Rightarrow> state \<Rightarrow> state option" where
  "run P c [] s = Some s"
| "run P c (a # as) s = (case exec P c a s of None \<Rightarrow> None | Some s' \<Rightarrow> run P c as s')"

text \<open>
  A whole crawl under a schedule: \<open>ls\<close> is the order of the seed's links.
\<close>

definition crawl_with :: "platform \<Rightarrow> crawler \<Rightarrow> string list \<Rightarrow> action list \<Rightarrow> state option" where
  "crawl_with P c ls acts =
     (if distinct ls \<and> set ls = initial_links P c then run P c acts (crawl_seed P c ls)
      else None)"

section \<open>Invariants of a run\<close>

text \<open>
  Every link that leaves the extraction functions has passed \<open>is_valid_link\<close>;
  \<open>all_valid\<close> says so of either outcome of a mining loop.
\<close>

definition all_valid :: "platform \<Rightarrow> crawler \<Rightarrow> string set + string set \<Rightarrow> bool" where
  "all_valid P c r = (\<forall>u\<in>(case r of Inl ps \<Rightarrow> ps | Inr ps \<Rightarrow> ps). is_valid_link P c u)"

fun record_depth :: "visit_record \<Rightarrow> int" where
  "record_depth (Status_record code ctype n d) = d"
| "record_depth (Error_record msg d) = d"

text \<open>
  What holds of every URL the crawl has claimed, of every queue entry, of every
  future and of every record, in every state of a run.
\<close>

definition origin_ok :: "platform \<Rightarrow> crawler \<Rightarrow> string \<Rightarrow> bool" where
  "origin_ok P c u = (u = base_url c \<or> is_valid_link P c u)"

fun future_ok :: "platform \<Rightarrow> crawler \<Rightarrow> state \<Rightarrow> future \<Rightarrow> bool" where
  "future_ok P c s (Future u d r) =
     (u \<in> visited s \<and> 1 \<le> d \<and> d \<le> max_depth c
      \<and> (case r of None \<Rightarrow> True
          | Some res \<Rightarrow> fst res \<in> visited s \<and> (\<forall>l\<in>fst (snd res). is_valid_link P c l)))"

definition entry_ok :: "platform \<Rightarrow> crawler \<Rightarrow> string \<times> int \<Rightarrow> bool" where
  "entry_ok P c e = (is_valid_link P c (fst e) \<and> 1 \<le> snd e \<and> (snd e = 1 \<or> snd e \<le> max_depth c))"

definition record_ok :: "crawler \<Rightarrow> string \<Rightarrow> visit_record \<Rightarrow> bool" where
  "record_ok c u r =
     ((u = base_url c \<and> record_depth r = 0)
      \<or> (1 \<le> record_depth r \<and> record_depth r \<le> max_depth c))"

definition frontier_inv :: "platform \<Rightarrow> crawler \<Rightarrow> state \<Rightarrow> bool" where
  "frontier_inv P c s =
     ((\<forall>u\<in>visited s. origin_ok P c u)
      \<and> discovered_urls s \<subseteq> visited s
      \<and> dom (url_data s) \<subseteq> visited s
      \<and> (\<forall>e\<in>set (queue s). entry_ok P c e)
      \<and> (\<forall>f\<in>snd ` set (futures s). future_ok P c s f)
      \<and> (\<forall>u r. url_data s u = Some r \<longrightarrow> record_ok c u r))"






section \<open>Example platforms\<close>

text \<open>
  A platform on which no host answers, and the crawler that \<open>__init__\<close> builds
  for \<open>http://example.test/\<close> with depth 3 and 5 workers; the same crawler with depth
  0 and with depth -1.
\<close>

definition offline :: platform where
  "offline = \<lparr>findall = (\<lambda>pat html. []), http_get = (\<lambda>url. ConnectionError),
              check_bracketed_host = (\<lambda>host. False)\<rparr>"

definition example_crawler :: crawler where
  "example_crawler =
     \<lparr>base_url = ''http://example.test'', max_depth = 3, max_workers = 5,
      base_domain = ''example.test'', self_scheme = ''http''\<rparr>"

definition shallow_crawler :: crawler where
  "shallow_crawler = example_crawler\<lparr>max_depth := 0\<rparr>"

definition negative_crawler :: crawler where
  "negative_crawler = example_crawler\<lparr>max_depth := - 1\<rparr>"

text \<open>
  A site whose every page is \<^verbatim>\<open><a href="/">home</a>\<close>. On this text the patterns
  \<open>P_href\<close> and \<open>P_anchor\<close> match once, with group \<open>/\<close>, and no other pattern
  matches.
\<close>

definition home_page :: string where
  \<open>home_page = ''<a href="/">home</a>''\<close>

definition looping_site :: platform where
  "looping_site =
     \<lparr>findall = (\<lambda>pat html. if html = home_page \<and> (pat = P_href \<or> pat = P_anchor)
                              then [''/''] else []),
      http_get = (\<lambda>url. Response 200 ''text/html'' home_page),
      check_bracketed_host = (\<lambda>host. False)\<rparr>"

text \<open>
  Three runs on that site: with depth 3 the root page is claimed, fetched and its
  result consumed; with depth 0 and with depth -1 the only queue entry is dropped.
\<close>

definition revisit_run :: "state option" where
  "revisit_run =
     crawl_with looping_site example_crawler [''http://example.test/'']
       [Submit, Begin_scan, Work 0, Look [''http://example.test/''], End_scan, Finish]"

definition shallow_run :: "state option" where
  "shallow_run =
     crawl_with looping_site shallow_crawler [''http://example.test/''] [Submit, Finish]"

definition negative_run :: "state option" where
  "negative_run =
     crawl_with looping_site negative_crawler [''http://example.test/''] [Submit, Finish]"

text \<open>
  A site whose seed page is \<^verbatim>\<open><a href="/a">a</a>\<close> and whose other pages answer 404
  with the text \<^verbatim>\<open><a href="/b">b</a>\<close>. \<open>P_href\<close>, \<open>P_anchor\<close> and \<open>P_js_abs\<close>
  match once on each text, with group \<open>/a\<close> and \<open>/b\<close>.
\<close>

definition page_a :: string where
  \<open>page_a = ''<a href="/a">a</a>''\<close>

definition page_b :: string where
  \<open>page_b = ''<a href="/b">b</a>''\<close>

definition error_site :: platform where
  "error_site =
     \<lparr>findall = (\<lambda>pat html.
                   if pat = P_href \<or> pat = P_anchor \<or> pat = P_js_abs
                   then (if html = page_a then [''/a''] else if html = page_b then [''/b''] else [])
                   else []),
      http_get = (\<lambda>url. if url = ''http://example.test'' then Response 200 ''text/html'' page_a
                          else Response 404 ''text/html'' page_b),
      check_bracketed_host = (\<lambda>host. False)\<rparr>"

definition error_run :: "state option" where
  "error_run =
     crawl_with error_site example_crawler [''http://example.test/a'']
       [Submit, Begin_scan, Work 0, Look [''http://example.test/b''], End_scan, Finish]"

text \<open>
  A page with the text \<^verbatim>\<open>api: "[x" <!-- /secret -->\<close>: \<open>P_js_api\<close> matches with
  group \<open>[x\<close>, \<open>P_comment\<close> finds the comment, and \<open>P_comment_path\<close> finds
  \<open>/secret\<close> in it.
\<close>

definition mined_page :: string where
  \<open>mined_page = ''api: "[x" <!-- /secret -->''\<close>

definition mining_site :: platform where
  "mining_site =
     \<lparr>findall = (\<lambda>pat html.
                   if pat = P_js_api \<and> html = mined_page then [''[x'']
                   else if pat = P_comment \<and> html = mined_page then [''<!-- /secret -->'']
                   else if pat = P_comment_path \<and> html = ''<!-- /secret -->'' then [''/secret'']
                   else []),
      http_get = (\<lambda>url. Response 200 ''text/html'' mined_page),
      check_bracketed_host = (\<lambda>host. False)\<rparr>"

section \<open>Properties: the seed request\<close>

lemma init_example: "init offline ''http://example.test/'' 3 5 = Inr example_crawler"
  by code_simp

lemma step_from_idle:
  assumes "step P c s s'" "pc s = Returned" "futures s = []"
  shows False
  using assms by (cases rule: step.cases) auto

lemma crawl_seed_connection_error:
  "http_get P (base_url c) = ConnectionError \<Longrightarrow>
   crawl_seed P c ls =
     initial_state\<lparr>visited := {base_url c}, requests_sent := [base_url c], pc := Returned\<rparr>"
  by (simp add: crawl_seed_def)

text \<open>
  C1, as the code has it. When the seed request raises a connection error, the only
  state the run ever reaches is the one in which \<open>crawl\<close> has returned from its
  handler: no counter has moved (the failed seed is not counted), nothing is
  discovered or recorded, only the seed was requested, and \<open>display_results\<close> has
  not been called.
\<close>

theorem seed_unreachable_returns_unreported:
  assumes "http_get P (base_url c) = ConnectionError" and "reachable P c s"
  shows "pc s = Returned \<and> \<not> displayed s \<and> successful_requests s = 0
         \<and> failed_requests s = 0 \<and> total_requests s = 0
         \<and> discovered_urls s = {} \<and> url_data s = Map.empty
         \<and> requests_sent s = [base_url c] \<and> queue s = [] \<and> futures s = []"
  using assms(2)
proof (induction rule: reachable.induct)
  case (seeded ls)
  show ?case
    by (simp add: crawl_seed_connection_error [OF assms(1)] initial_state_def)
next
  case (stepped s s')
  then show ?case using step_from_idle by blast
qed

text \<open>
  The case of C1 on the offline platform.
\<close>

theorem seed_unreachable_witness:
  "http_get offline (base_url example_crawler) = ConnectionError
   \<and> reachable offline example_crawler (crawl_seed offline example_crawler [])
   \<and> pc (crawl_seed offline example_crawler []) = Returned
   \<and> \<not> displayed (crawl_seed offline example_crawler [])
   \<and> successful_requests (crawl_seed offline example_crawler []) = 0
   \<and> discovered_urls (crawl_seed offline example_crawler []) = {}
   \<and> requests_sent (crawl_seed offline example_crawler []) = [''http://example.test'']"
proof -
  have h: "http_get offline (base_url example_crawler) = ConnectionError"
    by (simp add: offline_def)
  have i: "initial_links offline example_crawler = {}"
    by (simp add: initial_links_def offline_def)
  have r: "reachable offline example_crawler (crawl_seed offline example_crawler [])"
    using reachable.seeded [of "[]" offline example_crawler] i by simp
  show ?thesis
    using h r seed_unreachable_returns_unreported [OF h r]
    by (simp add: example_crawler_def)
qed

text \<open>
  C1 as stated fails: on the offline platform the run of \<open>example_crawler\<close> is over
  right after the seed request, with \<open>failed_requests\<close> still 0 (not 1) and without
  a call of \<open>display_results\<close>.
\<close>

theorem seed_unreachable_counterexample:
  "http_get offline (base_url example_crawler) = ConnectionError
   \<and> completed offline example_crawler (crawl_seed offline example_crawler [])
   \<and> failed_requests (crawl_seed offline example_crawler []) = 0
   \<and> \<not> displayed (crawl_seed offline example_crawler [])"
proof -
  have i: "initial_links offline example_crawler = {}"
    by (simp add: initial_links_def offline_def)
  have r: "reachable offline example_crawler (crawl_seed offline example_crawler [])"
    using reachable.seeded [of "[]" offline example_crawler] i by simp
  show ?thesis using r
    by (simp add: completed_def crawl_seed_def offline_def initial_state_def)
qed

section \<open>Properties: normalisation\<close>

text \<open>
  C3 at a failing input. A path made of slashes only is stripped to the empty path,
  which the check for an empty path has already passed: \<open>http://example.test//\<close>
  normalises to \<open>http://example.test\<close>, and that normalises to
  \<open>http://example.test/\<close>. Normalising twice differs from normalising once.
\<close>

theorem normalize_url_not_idempotent:
  "normalize_url offline example_crawler ''http://example.test//'' = Inr ''http://example.test''
   \<and> normalize_url offline example_crawler ''http://example.test''
       = Inr ''http://example.test/''"
  by code_simp


subsection \<open>No query or fragment is added\<close>































section \<open>Properties: extraction\<close>

lemma extract_found_valid:
  "\<forall>u\<in>links. is_valid_link P c u \<Longrightarrow> u \<in> extract_found P c page ms links
   \<Longrightarrow> is_valid_link P c u"
proof (induction ms arbitrary: links)
  case Nil
  then show ?case by simp
next
  case (Cons m ms)
  show ?case
  proof (cases "strip m = [] \<or> special_protocol (strip_fragment_query (strip m))")
    case True
    then have "extract_found P c page (m # ms) links = extract_found P c page ms links"
      by (auto simp: Let_def)
    then show ?thesis using Cons by simp
  next
    case False
    show ?thesis
    proof (cases "absolute_link P page (strip_fragment_query (strip m))")
      case (Inl e)
      then have "extract_found P c page (m # ms) links = links"
        using False by (simp add: Let_def)
      then show ?thesis using Cons.prems by simp
    next
      case (Inr a)
      show ?thesis
      proof (cases "normalize_url P c a")
        case (Inl e)
        then have "extract_found P c page (m # ms) links = links"
          using False Inr by (simp add: Let_def)
        then show ?thesis using Cons.prems by simp
      next
        case n: (Inr n)
        let ?links = "if is_valid_link P c n then insert n links else links"
        have e: "extract_found P c page (m # ms) links = extract_found P c page ms ?links"
          using False Inr n by (simp add: Let_def)
        have v: "\<forall>u\<in>?links. is_valid_link P c u"
          using Cons.prems(1) by simp
        show ?thesis
          using Cons.IH [OF v] Cons.prems(2) e by simp
      qed
    qed
  qed
qed

lemma extract_patterns_valid:
  "\<forall>u\<in>links. is_valid_link P c u
   \<Longrightarrow> u \<in> foldl (\<lambda>links pat. extract_found P c page (findall P pat html) links) links pats
   \<Longrightarrow> is_valid_link P c u"
proof (induction pats arbitrary: links)
  case Nil
  then show ?case by simp
next
  case (Cons pat pats)
  have v: "\<forall>u\<in>extract_found P c page (findall P pat html) links. is_valid_link P c u"
    using Cons.prems(1) extract_found_valid by blast
  show ?case
    using Cons.IH [OF v] Cons.prems(2) by simp
qed

lemma extract_links_valid: "u \<in> extract_links P c page html \<Longrightarrow> is_valid_link P c u"
  unfolding extract_links_def using extract_patterns_valid [of "{}"] by blast

lemma mine_found_valid:
  "\<forall>u\<in>paths. is_valid_link P c u \<Longrightarrow> all_valid P c (mine_found P c ms paths)"
proof (induction ms arbitrary: paths)
  case Nil
  then show ?case by (simp add: all_valid_def)
next
  case (Cons m ms)
  show ?case
  proof (cases "normalize_url P c (base_url c @ m)")
    case (Inl e)
    then show ?thesis using Cons.prems by (simp add: all_valid_def)
  next
    case (Inr full)
    have "\<forall>u\<in>(if is_valid_link P c full then insert full paths else paths). is_valid_link P c u"
      using Cons.prems by simp
    from Cons.IH [OF this] show ?thesis using Inr by simp
  qed
qed

lemma mine_patterns_valid:
  "\<forall>u\<in>paths. is_valid_link P c u \<Longrightarrow> all_valid P c (mine_patterns P c html pats paths)"
proof (induction pats arbitrary: paths)
  case Nil
  then show ?case by (simp add: all_valid_def)
next
  case (Cons pat pats)
  have f: "all_valid P c (mine_found P c (findall P pat html) paths)"
    using mine_found_valid [OF Cons.prems] .
  show ?case
  proof (cases "mine_found P c (findall P pat html) paths")
    case (Inl ps)
    then show ?thesis using f by (simp add: all_valid_def)
  next
    case (Inr ps)
    then have "\<forall>u\<in>ps. is_valid_link P c u" using f by (simp add: all_valid_def)
    from Cons.IH [OF this] show ?thesis using Inr by simp
  qed
qed

lemma mine_comments_valid:
  "\<forall>u\<in>paths. is_valid_link P c u \<Longrightarrow> all_valid P c (mine_comments P c cms paths)"
proof (induction cms arbitrary: paths)
  case Nil
  then show ?case by (simp add: all_valid_def)
next
  case (Cons cm cms)
  have f: "all_valid P c (mine_found P c (findall P P_comment_path cm) paths)"
    using mine_found_valid [OF Cons.prems] .
  show ?case
  proof (cases "mine_found P c (findall P P_comment_path cm) paths")
    case (Inl ps)
    then show ?thesis using f by (simp add: all_valid_def)
  next
    case (Inr ps)
    then have "\<forall>u\<in>ps. is_valid_link P c u" using f by (simp add: all_valid_def)
    from Cons.IH [OF this] show ?thesis using Inr by simp
  qed
qed

lemma find_potential_paths_valid:
  assumes "u \<in> find_potential_paths P c html"
  shows "is_valid_link P c u"
proof -
  have p: "all_valid P c (mine_patterns P c html js_patterns {})"
    using mine_patterns_valid [of "{}"] by simp
  show ?thesis
  proof (cases "mine_patterns P c html js_patterns {}")
    case (Inl ps)
    then show ?thesis using assms p by (simp add: find_potential_paths_def all_valid_def)
  next
    case (Inr ps)
    then have v: "\<forall>u\<in>ps. is_valid_link P c u" using p by (simp add: all_valid_def)
    have m: "all_valid P c (mine_comments P c (findall P P_comment html) ps)"
      using mine_comments_valid [OF v] .
    show ?thesis
      using assms Inr m
      by (cases "mine_comments P c (findall P P_comment html) ps")
         (simp_all add: find_potential_paths_def all_valid_def)
  qed
qed

lemma page_links_valid: "u \<in> page_links P c page html \<Longrightarrow> is_valid_link P c u"
  unfolding page_links_def using extract_links_valid find_potential_paths_valid by blast

lemma initial_links_valid: "u \<in> initial_links P c \<Longrightarrow> is_valid_link P c u"
  by (cases "http_get P (base_url c)")
     (auto simp: initial_links_def page_links_valid split: if_splits)

lemma is_valid_link_netloc:
  "is_valid_link P c u \<Longrightarrow> \<exists>r. urlparse P u = Inr r \<and> (netloc r = [] \<or> netloc r = base_domain c)"
  by (cases "urlparse P u") (auto simp: is_valid_link_def split: if_splits)

text \<open>
  C5 at a failing input. On the page \<^verbatim>\<open>api: "[x" <!-- /secret -->\<close> the third
  script pattern yields \<open>[x\<close>; \<open>http://example.test[x\<close> has an unmatched bracket in
  its host, so \<open>urlparse\<close> raises inside \<open>normalize_url\<close>. The one \<open>try\<close> of
  \<open>find_potential_paths\<close> ends the whole function there: the remaining patterns and
  the comments are never scanned and the result is empty, although the comment scan
  alone finds \<open>http://example.test/secret\<close>.
\<close>

theorem mining_stops_at_first_failure:
  "mine_patterns mining_site example_crawler mined_page js_patterns {} = Inl {}
   \<and> find_potential_paths mining_site example_crawler mined_page = {}
   \<and> mine_comments mining_site example_crawler (findall mining_site P_comment mined_page) {}
       = Inr {''http://example.test/secret''}"
  by code_simp

section \<open>Properties: fetching\<close>

lemma fetch_url_frame:
  assumes "fetch_url P c s url depth = (s', res)"
  shows "visited s' = visited s" "discovered_urls s' = discovered_urls s"
    "queue s' = queue s" "futures s' = futures s" "pc s' = pc s" "next_id s' = next_id s"
    "displayed s' = displayed s" "requests_sent s' = requests_sent s @ [url]"
    "total_requests s' = total_requests s + 1"
    "successful_requests s' + failed_requests s' = successful_requests s + failed_requests s + 1"
    "fst res = url"
  using assms
  by (cases "http_get P url"; auto simp: fetch_url_def fetch_error_def Let_def)+

lemma fetch_url_record:
  assumes "fetch_url P c s url depth = (s', res)"
  shows "\<exists>r. url_data s' = (url_data s)(url \<mapsto> r) \<and> record_depth r = depth"
  using assms
  by (cases "http_get P url") (auto simp: fetch_url_def fetch_error_def Let_def)

lemma fetch_url_links_valid:
  assumes "fetch_url P c s url depth = (s', res)" "l \<in> fst (snd res)"
  shows "is_valid_link P c l"
  using assms
  by (cases "http_get P url") (auto simp: fetch_url_def fetch_error_def Let_def page_links_valid)


lemma fetch_url_response:
  assumes "http_get P url = Response code ctype body"
  shows "fetch_url P c s url depth =
           (s\<lparr>total_requests := total_requests s + 1,
              requests_sent := requests_sent s @ [url],
              successful_requests := successful_requests s + 1,
              url_data := (url_data s)(url \<mapsto> Status_record code ctype (length body) depth)\<rparr>,
            (url, page_links P c url body, code))"
  using assms by (simp add: fetch_url_def Let_def)

lemma handle_result_queue:
  "queue (handle_result c s depth res ls) \<noteq> queue s \<Longrightarrow> snd (snd res) = 200 \<and> depth < max_depth c"
  by (cases res) (auto simp: handle_result_def split: if_splits)


text \<open>
  C4, as the code has it. A response with a status other than 200 is stored as a
  status record and counted as a successful request, not as a failure; \<open>fetch_url\<close>
  still extracts and returns the links of its body; the control loop counts the
  result, adds nothing to the queue for it (only status 200 is followed) and goes on
  with its pass.
\<close>

theorem non_200_recorded_not_followed:
  assumes "http_get P url = Response code ctype body" and "code \<noteq> 200"
  shows "url_data (fst (fetch_url P c s url depth)) url
           = Some (Status_record code ctype (length body) depth)
       \<and> successful_requests (fst (fetch_url P c s url depth)) = successful_requests s + 1
       \<and> failed_requests (fst (fetch_url P c s url depth)) = failed_requests s
       \<and> snd (fetch_url P c s url depth) = (url, page_links P c url body, code)
       \<and> queue (handle_result c s1 depth (snd (fetch_url P c s url depth)) ls) = queue s1
       \<and> pc (handle_result c s1 depth (snd (fetch_url P c s url depth)) ls) = pc s1"
  using assms(2)
  by (simp add: fetch_url_response [OF assms(1)] handle_result_def)

text \<open>
  The case of C4 for the page \<open>/a\<close> of the site that answers 404.
\<close>

theorem non_200_witness:
  "http_get error_site ''http://example.test/a'' = Response 404 ''text/html'' page_b
   \<and> (404::int) \<noteq> 200
   \<and> url_data (fst (fetch_url error_site example_crawler initial_state
                        ''http://example.test/a'' 1)) ''http://example.test/a''
       = Some (Status_record 404 ''text/html'' (length page_b) 1)
   \<and> queue (handle_result example_crawler initial_state 1
               (snd (fetch_url error_site example_crawler initial_state
                        ''http://example.test/a'' 1)) [''http://example.test/b''])
       = queue initial_state"
proof -
  have h: "http_get error_site ''http://example.test/a'' = Response 404 ''text/html'' page_b"
    by code_simp
  have n: "(404::int) \<noteq> 200" by simp
  show ?thesis
    using h n
      non_200_recorded_not_followed [OF h n, of example_crawler initial_state 1 initial_state
        "[''http://example.test/b'']"]
    by blast
qed

section \<open>Properties: schedules\<close>

lemma exec_step: "exec P c a s = Some s' \<Longrightarrow> step P c s s'"
proof (cases a)
  case Submit
  assume e: "exec P c a s = Some s'"
  show ?thesis
  proof (cases "queue s")
    case Nil
    then show ?thesis using e Submit by simp
  next
    case (Cons p q)
    obtain url depth where p: "p = (url, depth)" by (cases p)
    have g: "pc s = Submitting" "int (length (futures s)) < max_workers c * 2"
      using e Submit Cons p by (auto split: if_splits)
    show ?thesis
    proof (cases "url \<notin> visited s \<and> depth \<le> max_depth c")
      case True
      then have "s' = s\<lparr>queue := q, visited := insert url (visited s),
                        futures := futures s @ [(next_id s, Future url depth None)],
                        next_id := Suc (next_id s)\<rparr>"
        using e Submit Cons p g by simp
      then show ?thesis
        using step.submit_claim [of s url depth q c P] g Cons p True by simp
    next
      case False
      then have "s' = s\<lparr>queue := q\<rparr>" using e Submit Cons p g by auto
      then show ?thesis
        using step.submit_skip [of s url depth q c P] g Cons p False by simp
    qed
  qed
next
  case Begin_scan
  assume e: "exec P c a s = Some s'"
  then show ?thesis
    using Begin_scan step.begin_scan [of s c P] by (auto split: if_splits)
next
  case (Look ls)
  assume e: "exec P c a s = Some s'"
  then obtain i ids where pc: "pc s = Scanning (i # ids)"
    using Look by (auto split: pc.splits list.splits)
  then obtain url depth r where m: "map_of (futures s) i = Some (Future url depth r)"
    using e Look by (auto split: option.splits future.splits)
  show ?thesis
  proof (cases r)
    case None
    then have "s' = s\<lparr>pc := Scanning ids\<rparr>" using e Look pc m by simp
    then show ?thesis using step.scan_pending [of s i ids url depth P c] pc m None by simp
  next
    case (Some res)
    then have g: "distinct ls" "set ls = fst (snd res)"
      and s': "s' = handle_result c
                 (s\<lparr>futures := remove_future i (futures s), pc := Scanning ids\<rparr>) depth res ls"
      using e Look pc m by (auto split: if_splits)
    show ?thesis
      using step.scan_done [of s i ids url depth res ls P c] pc m Some g s' by simp
  qed
next
  case End_scan
  assume e: "exec P c a s = Some s'"
  then show ?thesis
    using End_scan step.scan_end [of s P c] by (auto split: if_splits)
next
  case Finish
  assume e: "exec P c a s = Some s'"
  then show ?thesis
    using Finish step.finish [of s P c] by (auto split: if_splits)
next
  case (Work i)
  assume e: "exec P c a s = Some s'"
  then obtain url depth where m: "map_of (futures s) i = Some (Future url depth None)"
    using Work by (auto split: option.splits future.splits)
  obtain s1 res where f: "fetch_url P c s url depth = (s1, res)"
    by (cases "fetch_url P c s url depth")
  have "s' = s1\<lparr>futures := set_result i res (futures s1)\<rparr>" using e Work m f by simp
  then show ?thesis
    using step.worker [of i url depth s P c s1 res] map_of_SomeD [OF m] f by simp
qed

lemma run_reachable: "reachable P c s \<Longrightarrow> run P c acts s = Some s' \<Longrightarrow> reachable P c s'"
proof (induction acts arbitrary: s)
  case Nil
  then show ?case by simp
next
  case (Cons a acts)
  then obtain s1 where e: "exec P c a s = Some s1" and r: "run P c acts s1 = Some s'"
    by (auto split: option.splits)
  have "reachable P c s1" using reachable.stepped [OF Cons.prems(1) exec_step [OF e]] .
  then show ?case using Cons.IH r by blast
qed

lemma crawl_with_reachable:
  assumes "crawl_with P c ls acts = Some s"
  shows "reachable P c s"
proof -
  have g: "distinct ls" "set ls = initial_links P c"
    and r: "run P c acts (crawl_seed P c ls) = Some s"
    using assms by (auto simp: crawl_with_def split: if_splits)
  show ?thesis using run_reachable [OF reachable.seeded [OF g] r] .
qed

lemma crawl_with_the:
  assumes "map_option pc (crawl_with P c ls acts) = Some p"
  shows "reachable P c (the (crawl_with P c ls acts))"
proof -
  from assms obtain s where "crawl_with P c ls acts = Some s" by auto
  then show ?thesis using crawl_with_reachable by simp
qed

lemma revisit_run_reachable: "reachable looping_site example_crawler (the revisit_run)"
proof -
  have "map_option pc revisit_run = Some Returned" by code_simp
  then show ?thesis using crawl_with_the unfolding revisit_run_def by blast
qed

lemma shallow_run_reachable: "reachable looping_site shallow_crawler (the shallow_run)"
proof -
  have "map_option pc shallow_run = Some Returned" by code_simp
  then show ?thesis using crawl_with_the unfolding shallow_run_def by blast
qed

lemma negative_run_reachable: "reachable looping_site negative_crawler (the negative_run)"
proof -
  have "map_option pc negative_run = Some Returned" by code_simp
  then show ?thesis using crawl_with_the unfolding negative_run_def by blast
qed

text \<open>
  C4 as stated fails. In the completed run on that site the page \<open>/a\<close> answers
  404 at depth 1, below the bound 3. Its outcome is a status record and no failure is
  counted; its body links to \<open>/b\<close>, yet \<open>/b\<close> is never put on the queue, never
  claimed and never requested.
\<close>

theorem non_200_links_dropped:
  "completed error_site example_crawler (the error_run)
   \<and> requests_sent (the error_run) = [''http://example.test'', ''http://example.test/a'']
   \<and> url_data (the error_run) ''http://example.test/a''
       = Some (Status_record 404 ''text/html'' 18 1)
   \<and> failed_requests (the error_run) = 0
   \<and> page_links error_site example_crawler ''http://example.test/a'' page_b
       = {''http://example.test/b''}
   \<and> 1 < max_depth example_crawler
   \<and> ''http://example.test/b'' \<notin> visited (the error_run)
   \<and> queue (the error_run) = []"
proof -
  have p: "map_option pc error_run = Some Returned" by code_simp
  have r: "reachable error_site example_crawler (the error_run)"
    using crawl_with_the p unfolding error_run_def by blast
  have q: "pc (the error_run) = Returned" by code_simp
  have c: "completed error_site example_crawler (the error_run)"
    using r q by (simp add: completed_def)
  have e: "requests_sent (the error_run) = [''http://example.test'', ''http://example.test/a'']"
    "url_data (the error_run) ''http://example.test/a''
       = Some (Status_record 404 ''text/html'' 18 1)"
    "failed_requests (the error_run) = 0"
    "page_links error_site example_crawler ''http://example.test/a'' page_b
       = {''http://example.test/b''}"
    "1 < max_depth example_crawler"
    "''http://example.test/b'' \<notin> visited (the error_run)"
    "queue (the error_run) = []"
    by code_simp+
  show ?thesis using c e by blast
qed

text \<open>
  C6 at a failing input. The seed is stored in \<open>visited\<close> as
  \<open>http://example.test\<close>, without the normalisation every link goes through. The
  seed's page links to \<open>/\<close>, which normalises to \<open>http://example.test/\<close>: not
  in \<open>visited\<close>, so it is claimed and fetched at depth 1. Both keys normalise to
  the same URL, which is thus requested twice and has two records.
\<close>

theorem seed_fetched_again_as_root:
  "completed looping_site example_crawler (the revisit_run)
   \<and> requests_sent (the revisit_run) = [''http://example.test'', ''http://example.test/'']
   \<and> normalize_url looping_site example_crawler ''http://example.test''
       = Inr ''http://example.test/''
   \<and> normalize_url looping_site example_crawler ''http://example.test/''
       = Inr ''http://example.test/''
   \<and> url_data (the revisit_run) ''http://example.test''
       = Some (Status_record 200 ''text/html'' 20 0)
   \<and> url_data (the revisit_run) ''http://example.test/''
       = Some (Status_record 200 ''text/html'' 20 1)"
proof -
  have p: "map_option pc revisit_run = Some Returned" by code_simp
  have r: "reachable looping_site example_crawler (the revisit_run)"
    using crawl_with_the p unfolding revisit_run_def by blast
  have q: "pc (the revisit_run) = Returned" by code_simp
  have c: "completed looping_site example_crawler (the revisit_run)"
    using r q by (simp add: completed_def)
  have e: "requests_sent (the revisit_run) = [''http://example.test'', ''http://example.test/'']"
    "normalize_url looping_site example_crawler ''http://example.test''
       = Inr ''http://example.test/''"
    "normalize_url looping_site example_crawler ''http://example.test/''
       = Inr ''http://example.test/''"
    "url_data (the revisit_run) ''http://example.test''
       = Some (Status_record 200 ''text/html'' 20 0)"
    "url_data (the revisit_run) ''http://example.test/''
       = Some (Status_record 200 ''text/html'' 20 1)"
    by code_simp+
  show ?thesis using c e by blast
qed

section \<open>Properties: origin and depth\<close>

lemma future_ok_visited:
  "future_ok P c s f \<Longrightarrow> visited s \<subseteq> visited s' \<Longrightarrow> future_ok P c s' f"
  by (cases f) (auto split: option.splits)

lemma enqueue_links_ok:
  assumes "\<forall>l\<in>set ls. is_valid_link P c l" "1 \<le> d" "d = 1 \<or> d \<le> max_depth c"
    "e \<in> set (enqueue_links s ls d)"
  shows "entry_ok P c e"
  using assms by (auto simp: enqueue_links_def entry_ok_def)

lemma frontier_inv_seed:
  assumes "set ls = initial_links P c"
  shows "frontier_inv P c (crawl_seed P c ls)"
proof -
  have v: "\<forall>l\<in>set ls. is_valid_link P c l"
    using assms initial_links_valid by blast
  have q: "\<And>s e. e \<in> set (enqueue_links s ls 1) \<Longrightarrow> entry_ok P c e"
    using enqueue_links_ok [OF v, of 1] by blast
  show ?thesis
    by (cases "http_get P (base_url c)")
       (auto simp: frontier_inv_def crawl_seed_def initial_state_def record_seed_def
          display_results_def origin_ok_def record_ok_def Let_def q)
qed

lemma set_remove_future: "set (remove_future i fs) \<subseteq> set fs"
  by (auto simp: remove_future_def)

lemma set_result_cases:
  assumes "f \<in> snd ` set (set_result i res fs)"
  shows "f \<in> snd ` set fs \<or> (\<exists>u d r. Future u d r \<in> snd ` set fs \<and> f = Future u d (Some res))"
proof -
  from assms obtain j f0 where m: "(j, f0) \<in> set fs"
    and f: "f = snd (if j = i then (case f0 of Future u d r \<Rightarrow> (j, Future u d (Some res)))
                     else (j, f0))"
    by (auto simp: set_result_def)
  show ?thesis
  proof (cases "j = i")
    case True
    obtain u d r where f0: "f0 = Future u d r" by (cases f0)
    have "Future u d r \<in> snd ` set fs" using m f0 by force
    then show ?thesis using f True f0 by auto
  next
    case False
    then have "f = f0" using f by simp
    then show ?thesis using m by force
  qed
qed

lemma frontier_inv_future:
  "frontier_inv P c s \<Longrightarrow> (i, f) \<in> set (futures s) \<Longrightarrow> future_ok P c s f"
  unfolding frontier_inv_def by (metis image_eqI snd_conv)

lemma frontier_inv_entry:
  "frontier_inv P c s \<Longrightarrow> e \<in> set (queue s) \<Longrightarrow> entry_ok P c e"
  unfolding frontier_inv_def by blast

lemma frontier_inv_frame:
  assumes "frontier_inv P c s"
    and "visited s' = visited s" "discovered_urls s' = discovered_urls s"
    and "url_data s' = url_data s" "set (queue s') \<subseteq> set (queue s)"
    and "set (futures s') \<subseteq> set (futures s)"
  shows "frontier_inv P c s'"
proof -
  have "future_ok P c s' f" if "f \<in> snd ` set (futures s')" for f
  proof -
    from that assms(6) obtain i where "(i, f) \<in> set (futures s)" by auto
    then have "future_ok P c s f" using frontier_inv_future [OF assms(1)] by blast
    then show ?thesis using future_ok_visited assms(2) by blast
  qed
  then show ?thesis
    using assms unfolding frontier_inv_def by auto
qed

lemma frontier_inv_step:
  assumes "step P c s s'" and inv: "frontier_inv P c s"
  shows "frontier_inv P c s'"
  using assms(1)
proof (cases rule: step.cases)
  case (submit_skip url depth q)
  then show ?thesis by (intro frontier_inv_frame [OF inv]) auto
next
  case (submit_claim url depth q)
  have e: "entry_ok P c (url, depth)"
    using frontier_inv_entry [OF inv, of "(url, depth)"] submit_claim by simp
  have f: "future_ok P c s' f" if "f \<in> snd ` set (futures s')" for f
  proof -
    from that submit_claim(1)
    consider "f = Future url depth None" | i where "(i, f) \<in> set (futures s)" by auto
    then show ?thesis
    proof cases
      case 1
      then show ?thesis using e submit_claim by (auto simp: entry_ok_def)
    next
      case 2
      then have "future_ok P c s f" using frontier_inv_future [OF inv] by blast
      then show ?thesis using future_ok_visited [of P c s f s'] submit_claim(1) by auto
    qed
  qed
  have rest: "(\<forall>u\<in>visited s'. origin_ok P c u) \<and> discovered_urls s' \<subseteq> visited s'
      \<and> dom (url_data s') \<subseteq> visited s' \<and> (\<forall>e\<in>set (queue s'). entry_ok P c e)
      \<and> (\<forall>u r. url_data s' u = Some r \<longrightarrow> record_ok c u r)"
    using inv e submit_claim
    by (auto simp: frontier_inv_def origin_ok_def entry_ok_def)
  show ?thesis using f rest unfolding frontier_inv_def by blast
next
  case begin_scan
  then show ?thesis by (intro frontier_inv_frame [OF inv]) auto
next
  case (scan_pending i ids url depth)
  then show ?thesis by (intro frontier_inv_frame [OF inv]) auto
next
  case (scan_done i ids url depth res ls)
  have fo: "future_ok P c s (Future url depth (Some res))"
    using frontier_inv_future [OF inv map_of_SomeD [OF scan_done(3)]] .
  obtain src links code where res: "res = (src, links, code)" by (cases res)
  have src: "src \<in> visited s" "1 \<le> depth" "depth \<le> max_depth c"
    and lv: "\<forall>l\<in>set ls. is_valid_link P c l"
    using fo res scan_done(5) by auto
  have q: "entry_ok P c e"
    if "code = 200 \<and> depth < max_depth c" "e \<in> set (enqueue_links s0 ls (depth + 1))" for s0 e
    using enqueue_links_ok [OF lv, of "depth + 1" e s0] src(2) that by auto
  have f: "future_ok P c s' f" if "f \<in> snd ` set (futures s')" for f
  proof -
    from that scan_done(1) res set_remove_future [of i "futures s"]
    obtain j where "(j, f) \<in> set (futures s)" by (auto simp: handle_result_def)
    then have "future_ok P c s f" using frontier_inv_future [OF inv] by blast
    then show ?thesis
      using future_ok_visited [of P c s f s'] scan_done(1) res by (auto simp: handle_result_def)
  qed
  have rest: "(\<forall>u\<in>visited s'. origin_ok P c u) \<and> discovered_urls s' \<subseteq> visited s'
      \<and> dom (url_data s') \<subseteq> visited s' \<and> (\<forall>e\<in>set (queue s'). entry_ok P c e)
      \<and> (\<forall>u r. url_data s' u = Some r \<longrightarrow> record_ok c u r)"
    using inv scan_done(1) res src q
    by (auto simp: frontier_inv_def handle_result_def)
  show ?thesis using f rest unfolding frontier_inv_def by blast
next
  case scan_end
  then show ?thesis by (intro frontier_inv_frame [OF inv]) auto
next
  case finish
  then show ?thesis by (intro frontier_inv_frame [OF inv]) (auto simp: display_results_def)
next
  case (worker i url depth s1 res)
  note fr = fetch_url_frame [OF worker(3)]
  have fo: "future_ok P c s (Future url depth None)"
    using frontier_inv_future [OF inv worker(2)] .
  obtain r where r: "url_data s1 = (url_data s)(url \<mapsto> r)" "record_depth r = depth"
    using fetch_url_record [OF worker(3)] by blast
  have vs: "visited s' = visited s" using worker(1) fr(1) by simp
  have f: "future_ok P c s' f" if "f \<in> snd ` set (futures s')" for f
  proof -
    from that worker(1) fr(4) have "f \<in> snd ` set (set_result i res (futures s))" by simp
    from set_result_cases [OF this]
    show ?thesis
    proof
      assume "f \<in> snd ` set (futures s)"
      then obtain j where "(j, f) \<in> set (futures s)" by auto
      then have "future_ok P c s f" using frontier_inv_future [OF inv] by blast
      then show ?thesis using future_ok_visited vs by blast
    next
      assume "\<exists>u d r. Future u d r \<in> snd ` set (futures s) \<and> f = Future u d (Some res)"
      then obtain u d r' j where m: "(j, Future u d r') \<in> set (futures s)"
        and f: "f = Future u d (Some res)" by auto
      have "future_ok P c s (Future u d r')" using frontier_inv_future [OF inv m] .
      then show ?thesis
        using f vs fr(11) fetch_url_links_valid [OF worker(3)] fo by auto
    qed
  qed
  have rest: "(\<forall>u\<in>visited s'. origin_ok P c u) \<and> discovered_urls s' \<subseteq> visited s'
      \<and> dom (url_data s') \<subseteq> visited s' \<and> (\<forall>e\<in>set (queue s'). entry_ok P c e)
      \<and> (\<forall>u r. url_data s' u = Some r \<longrightarrow> record_ok c u r)"
    using inv worker(1) fr r fo
    by (auto simp: frontier_inv_def record_ok_def)
  show ?thesis using f rest unfolding frontier_inv_def by blast
qed

lemma reachable_frontier_inv: "reachable P c s \<Longrightarrow> frontier_inv P c s"
  by (induction rule: reachable.induct) (auto intro: frontier_inv_seed frontier_inv_step)

text \<open>
  C8. In every state of a run, every URL other than the seed that is in
  \<open>visited\<close>, in \<open>discovered_urls\<close>, a key of \<open>url_data\<close> or on the queue parses
  with a network location that is empty or equal to \<open>base_domain\<close>: no URL with
  another host is ever enqueued, claimed or reported.
\<close>

theorem cross_origin_never_claimed:
  assumes "reachable P c s"
    and "u \<in> visited s \<union> discovered_urls s \<union> dom (url_data s) \<union> fst ` set (queue s)"
    and "u \<noteq> base_url c"
  shows "\<exists>r. urlparse P u = Inr r \<and> (netloc r = [] \<or> netloc r = base_domain c)"
proof -
  have inv: "frontier_inv P c s" using assms(1) by (rule reachable_frontier_inv)
  have "origin_ok P c u \<or> is_valid_link P c u"
    using inv assms(2) unfolding frontier_inv_def entry_ok_def by auto
  then have "is_valid_link P c u" using assms(3) by (auto simp: origin_ok_def)
  then show ?thesis by (rule is_valid_link_netloc)
qed

text \<open>
  The case of C8 for the root page of the looping site.
\<close>

theorem cross_origin_witness:
  "reachable looping_site example_crawler (the revisit_run)
   \<and> ''http://example.test/'' \<in> visited (the revisit_run)
   \<and> ''http://example.test/'' \<noteq> base_url example_crawler
   \<and> (\<exists>r. urlparse looping_site ''http://example.test/'' = Inr r
            \<and> (netloc r = [] \<or> netloc r = base_domain example_crawler))"
proof -
  have v: "''http://example.test/'' \<in> visited (the revisit_run)" by code_simp
  have n: "''http://example.test/'' \<noteq> base_url example_crawler" by code_simp
  have m: "''http://example.test/'' \<in> visited (the revisit_run)
             \<union> discovered_urls (the revisit_run) \<union> dom (url_data (the revisit_run))
             \<union> fst ` set (queue (the revisit_run))"
    using v by blast
  show ?thesis
    using revisit_run_reachable v n
      cross_origin_never_claimed [OF revisit_run_reachable m n]
    by blast
qed

text \<open>
  C7, as the code has it. In every state of a run a record's depth is at most
  \<open>max 0 max_depth\<close>: the seed is recorded at depth 0 whatever the bound is, and
  every other record has a depth from 1 to \<open>max_depth\<close>. A future is dispatched
  only with a depth up to \<open>max_depth\<close>, the queue holds depth 1 or depths up to
  \<open>max_depth\<close>, and the control loop extends the queue for a result of depth \<open>d\<close>
  only when \<open>d < max_depth\<close>.
\<close>

theorem depth_bound_from_zero:
  assumes "reachable P c s"
  shows "(\<forall>u r. url_data s u = Some r \<longrightarrow>
            record_depth r \<le> max 0 (max_depth c)
            \<and> (u \<noteq> base_url c \<longrightarrow> 1 \<le> record_depth r \<and> record_depth r \<le> max_depth c))
       \<and> (\<forall>i u d r. (i, Future u d r) \<in> set (futures s) \<longrightarrow> d \<le> max_depth c)
       \<and> (\<forall>u d. (u, d) \<in> set (queue s) \<longrightarrow> d = 1 \<or> d \<le> max_depth c)
       \<and> (\<forall>d res ls. queue (handle_result c s d res ls) \<noteq> queue s \<longrightarrow> d < max_depth c)"
proof -
  have inv: "frontier_inv P c s" using assms by (rule reachable_frontier_inv)
  have a: "record_depth r \<le> max 0 (max_depth c)
           \<and> (u \<noteq> base_url c \<longrightarrow> 1 \<le> record_depth r \<and> record_depth r \<le> max_depth c)"
    if "url_data s u = Some r" for u r
  proof -
    have "record_ok c u r" using inv that unfolding frontier_inv_def by blast
    then show ?thesis by (auto simp: record_ok_def)
  qed
  have b: "d \<le> max_depth c" if "(i, Future u d r) \<in> set (futures s)" for i u d r
    using frontier_inv_future [OF inv that] by simp
  have e: "d = 1 \<or> d \<le> max_depth c" if "(u, d) \<in> set (queue s)" for u d
    using frontier_inv_entry [OF inv that] by (simp add: entry_ok_def)
  have h: "d < max_depth c" if "queue (handle_result c s d res ls) \<noteq> queue s" for d res ls
    using handle_result_queue [OF that] by simp
  show ?thesis using a b e h by blast
qed

text \<open>
  The case of C7 for the root page of the looping site, recorded at depth 1.
\<close>

theorem depth_bound_witness:
  "reachable looping_site example_crawler (the revisit_run)
   \<and> url_data (the revisit_run) ''http://example.test/''
       = Some (Status_record 200 ''text/html'' 20 1)
   \<and> ''http://example.test/'' \<noteq> base_url example_crawler
   \<and> record_depth (Status_record 200 ''text/html'' 20 1) \<le> max_depth example_crawler"
proof -
  have u: "url_data (the revisit_run) ''http://example.test/''
             = Some (Status_record 200 ''text/html'' 20 1)" by code_simp
  have n: "''http://example.test/'' \<noteq> base_url example_crawler" by code_simp
  show ?thesis
    using revisit_run_reachable u n depth_bound_from_zero [OF revisit_run_reachable]
    by blast
qed

text \<open>
  C7 as stated fails for a negative bound: with \<open>max_depth = -1\<close> the completed
  run has recorded the seed at depth 0.
\<close>

theorem depth_bound_counterexample:
  "max_depth negative_crawler = - 1
   \<and> completed looping_site negative_crawler (the negative_run)
   \<and> url_data (the negative_run) ''http://example.test''
       = Some (Status_record 200 ''text/html'' 20 0)"
proof -
  have e: "max_depth negative_crawler = - 1" "pc (the negative_run) = Returned"
    "url_data (the negative_run) ''http://example.test''
       = Some (Status_record 200 ''text/html'' 20 0)"
    by code_simp+
  show ?thesis using e negative_run_reachable by (simp add: completed_def)
qed

lemma no_futures_at_depth_zero:
  assumes "reachable P c s" "max_depth c \<le> 0"
  shows "futures s = []"
proof (cases "futures s")
  case Nil
  then show ?thesis .
next
  case (Cons p fs)
  obtain i f where p: "p = (i, f)" by (cases p)
  obtain u d r where f: "f = Future u d r" by (cases f)
  have m: "(i, Future u d r) \<in> set (futures s)" using Cons p f by simp
  have "future_ok P c s (Future u d r)"
    using frontier_inv_future [OF reachable_frontier_inv [OF assms(1)] m] .
  then have "1 \<le> d \<and> d \<le> max_depth c" by simp
  then show ?thesis using assms(2) by simp
qed

lemma crawl_seed_visited: "visited (crawl_seed P c ls) = {base_url c}"
  by (cases "http_get P (base_url c)")
     (auto simp: crawl_seed_def initial_state_def record_seed_def display_results_def Let_def)

lemma crawl_seed_requests: "requests_sent (crawl_seed P c ls) = [base_url c]"
  by (cases "http_get P (base_url c)")
     (auto simp: crawl_seed_def initial_state_def record_seed_def display_results_def Let_def)

lemma crawl_seed_queue_depth: "(u, d) \<in> set (queue (crawl_seed P c ls)) \<Longrightarrow> d = 1"
  by (cases "http_get P (base_url c)")
     (auto simp: crawl_seed_def initial_state_def record_seed_def display_results_def Let_def
        enqueue_links_def split: if_splits)

text \<open>
  C9, as the code has it. With \<open>max_depth = 0\<close> only the seed is ever requested
  and claimed and no task is ever submitted; what the queue holds are the seed's
  links at depth 1, each of which is dropped when it is taken from the queue.
\<close>

theorem depth_zero_fetches_seed_only:
  assumes "max_depth c = 0" and "reachable P c s"
  shows "requests_sent s = [base_url c] \<and> visited s = {base_url c} \<and> futures s = []
         \<and> (\<forall>u d. (u, d) \<in> set (queue s) \<longrightarrow> d = 1)"
  using assms(2)
proof (induction rule: reachable.induct)
  case (seeded ls)
  have "reachable P c (crawl_seed P c ls)" using seeded by (rule reachable.seeded)
  then have "futures (crawl_seed P c ls) = []"
    using no_futures_at_depth_zero assms(1) by simp
  moreover have "\<forall>u d. (u, d) \<in> set (queue (crawl_seed P c ls)) \<longrightarrow> d = 1"
    using crawl_seed_queue_depth by blast
  ultimately show ?case
    by (simp add: crawl_seed_visited crawl_seed_requests)
next
  case (stepped s s')
  have f': "futures s' = []"
    using no_futures_at_depth_zero [OF reachable.stepped [OF stepped(1,2)]] assms(1) by simp
  have ih: "requests_sent s = [base_url c]" "visited s = {base_url c}" "futures s = []"
    using stepped.IH by blast+
  have ihq: "\<forall>u d. (u, d) \<in> set (queue s) \<longrightarrow> d = 1"
    using stepped.IH by blast
  from stepped(2) show ?case
  proof (cases rule: step.cases)
    case (submit_skip url depth q)
    have "set q \<subseteq> set (queue s)" using submit_skip(3) by auto
    then have "\<forall>u d. (u, d) \<in> set q \<longrightarrow> d = 1" using ihq by blast
    then show ?thesis using ih submit_skip(1) by simp
  next
    case (submit_claim url depth q)
    then show ?thesis using f' by simp
  next
    case begin_scan
    then show ?thesis using ih ihq by simp
  next
    case (scan_pending i ids url depth)
    then show ?thesis using ih ihq by simp
  next
    case (scan_done i ids url depth res ls)
    then show ?thesis using ih(3) by simp
  next
    case scan_end
    then show ?thesis using ih ihq by simp
  next
    case finish
    then show ?thesis using ih ihq by (simp add: display_results_def)
  next
    case (worker i url depth s1 res)
    then show ?thesis using ih(3) by simp
  qed
qed

text \<open>
  The case of C9 for the looping site.
\<close>

theorem depth_zero_witness:
  "max_depth shallow_crawler = 0
   \<and> reachable looping_site shallow_crawler (the shallow_run)
   \<and> requests_sent (the shallow_run) = [base_url shallow_crawler]
   \<and> visited (the shallow_run) = {base_url shallow_crawler}
   \<and> futures (the shallow_run) = []"
proof -
  have d: "max_depth shallow_crawler = 0" by code_simp
  show ?thesis
    using d shallow_run_reachable depth_zero_fetches_seed_only [OF d shallow_run_reachable]
    by blast
qed

text \<open>
  C9 as stated fails: with \<open>max_depth = 0\<close> the seed's link is put on the queue,
  at depth 1.
\<close>

theorem depth_zero_still_enqueues:
  "max_depth shallow_crawler = 0
   \<and> reachable looping_site shallow_crawler
        (crawl_seed looping_site shallow_crawler [''http://example.test/''])
   \<and> queue (crawl_seed looping_site shallow_crawler [''http://example.test/''])
       = [(''http://example.test/'', 1)]"
proof -
  have d: "max_depth shallow_crawler = 0" by code_simp
  have i: "distinct [''http://example.test/'']"
    "set [''http://example.test/''] = initial_links looping_site shallow_crawler"
    by code_simp+
  have q: "queue (crawl_seed looping_site shallow_crawler [''http://example.test/''])
             = [(''http://example.test/'', 1)]" by code_simp
  show ?thesis using d q reachable.seeded [OF i] by blast
qed

section \<open>Properties: counters\<close>












end
